theory Spec2Isabelle
  imports Complex_Main "HOL-Library.Log_Nat"
begin

section \<open>Risk profile assessment service (assessment.py)\<close>

text \<open>
  The service scores a 13-question Grable-Lytton questionnaire, rescales the score to a
  tier between 1.0 and 10.0 in steps of 0.5, and looks the tier up in a static allocation
  table. The three stages are pure functions of their argument and of two constant tables.

  Python values are modelled as follows: \<open>int\<close> as \<open>int\<close>, \<open>str\<close> as \<open>string\<close>,
  a \<open>dict\<close> literal as an association list in the order it is written (looked up with
  \<open>map_of\<close>), a \<open>set\<close> as a HOL set, a finite \<open>float\<close> as the rational number it
  denotes, and a raised \<open>HTTPException\<close> as the left summand of the result.
\<close>

subsection \<open>Static tables\<close>

text \<open>\<open>GL_SCORING_KEY\<close>: question number to (choice letter to points).\<close>

definition GL_SCORING_KEY :: "(int \<times> (string \<times> int) list) list" where
  "GL_SCORING_KEY =
    [(1, [(''A'', 4), (''B'', 3), (''C'', 2), (''D'', 1)]),
     (2, [(''A'', 1), (''B'', 2), (''C'', 3), (''D'', 4)]),
     (3, [(''A'', 1), (''B'', 2), (''C'', 3), (''D'', 4)]),
     (4, [(''A'', 1), (''B'', 2), (''C'', 3)]),
     (5, [(''A'', 1), (''B'', 2), (''C'', 3)]),
     (6, [(''A'', 1), (''B'', 2), (''C'', 3), (''D'', 4)]),
     (7, [(''A'', 1), (''B'', 2), (''C'', 3), (''D'', 4)]),
     (8, [(''A'', 1), (''B'', 2), (''C'', 3), (''D'', 4)]),
     (9, [(''A'', 1), (''B'', 3)]),
     (10, [(''A'', 1), (''B'', 3)]),
     (11, [(''A'', 1), (''B'', 2), (''C'', 3), (''D'', 4)]),
     (12, [(''A'', 1), (''B'', 2), (''C'', 3), (''D'', 4)]),
     (13, [(''A'', 1), (''B'', 2), (''C'', 3), (''D'', 4)])]"

text \<open>A value of \<open>BIBIT_ALLOCATIONS\<close>: the profile label and three integer weights.\<close>

record allocation =
  profile :: string
  money_market :: int
  obligation :: int
  stocks :: int

text \<open>\<open>BIBIT_ALLOCATIONS\<close>: tier to allocation. The keys are the float literals
  \<open>1.0, 1.5, \<dots>, 10.0\<close>, each an exact multiple of one half.\<close>

definition BIBIT_ALLOCATIONS :: "(rat \<times> allocation) list" where
  "BIBIT_ALLOCATIONS =
    [(1, \<lparr>profile = ''Konservatif'', money_market = 70, obligation = 20, stocks = 10\<rparr>),
     (3/2, \<lparr>profile = ''Konservatif'', money_market = 70, obligation = 20, stocks = 10\<rparr>),
     (2, \<lparr>profile = ''Konservatif'', money_market = 58, obligation = 32, stocks = 10\<rparr>),
     (5/2, \<lparr>profile = ''Konservatif'', money_market = 47, obligation = 43, stocks = 10\<rparr>),
     (3, \<lparr>profile = ''Konservatif'', money_market = 36, obligation = 54, stocks = 10\<rparr>),
     (7/2, \<lparr>profile = ''Konservatif'', money_market = 27, obligation = 62, stocks = 11\<rparr>),
     (4, \<lparr>profile = ''Konservatif'', money_market = 18, obligation = 69, stocks = 13\<rparr>),
     (9/2, \<lparr>profile = ''Moderat'', money_market = 12, obligation = 70, stocks = 18\<rparr>),
     (5, \<lparr>profile = ''Moderat'', money_market = 10, obligation = 65, stocks = 25\<rparr>),
     (11/2, \<lparr>profile = ''Moderat'', money_market = 10, obligation = 59, stocks = 31\<rparr>),
     (6, \<lparr>profile = ''Moderat'', money_market = 10, obligation = 53, stocks = 37\<rparr>),
     (13/2, \<lparr>profile = ''Moderat'', money_market = 10, obligation = 48, stocks = 42\<rparr>),
     (7, \<lparr>profile = ''Moderat'', money_market = 10, obligation = 43, stocks = 47\<rparr>),
     (15/2, \<lparr>profile = ''Agresif'', money_market = 10, obligation = 38, stocks = 52\<rparr>),
     (8, \<lparr>profile = ''Agresif'', money_market = 10, obligation = 34, stocks = 56\<rparr>),
     (17/2, \<lparr>profile = ''Agresif'', money_market = 10, obligation = 29, stocks = 61\<rparr>),
     (9, \<lparr>profile = ''Agresif'', money_market = 10, obligation = 24, stocks = 66\<rparr>),
     (19/2, \<lparr>profile = ''Agresif'', money_market = 10, obligation = 20, stocks = 70\<rparr>),
     (10, \<lparr>profile = ''Agresif'', money_market = 10, obligation = 20, stocks = 70\<rparr>)]"

subsection \<open>Request and response models, errors\<close>

record Answer =
  question :: int
  answer :: string

record RiskAssessmentPayload =
  answers :: "Answer list"

text \<open>The field constraints that the request models declare (\<open>ge=1, le=13\<close>, the
  \<open>Literal\<close> of four letters, \<open>min_length = max_length = 13\<close>). The web framework
  checks them before \<open>assess_risk\<close> runs; \<open>calculate_gl_score\<close> itself does not.\<close>

definition valid_Answer :: "Answer \<Rightarrow> bool" where
  "valid_Answer a \<longleftrightarrow>
     1 \<le> question a \<and> question a \<le> 13 \<and> answer a \<in> set [''A'', ''B'', ''C'', ''D'']"

definition valid_RiskAssessmentPayload :: "RiskAssessmentPayload \<Rightarrow> bool" where
  "valid_RiskAssessmentPayload p \<longleftrightarrow>
     length (answers p) = 13 \<and> list_all valid_Answer (answers p)"

text \<open>The response model. Its field \<open>profile\<close> has the name of the table records'
  field; below, \<open>profile\<close> is the response's and \<open>allocation.profile\<close> the table's.\<close>

record AllocationResponse =
  gl_score :: rat
  risk_profile_score :: rat
  profile :: string
  allocations :: "(string \<times> rat) list"

text \<open>
  Every failure of the source is \<open>raise HTTPException(status_code, detail)\<close>. The detail
  is a formatted message; the model keeps the values that the message is formatted from:
  \<^item> \<open>DuplicateQuestion q\<close>: "Question q answered more than once."
  \<^item> \<open>UnknownQuestion q\<close>: "Invalid question number: q"
  \<^item> \<open>InvalidChoice ans q keys\<close>: "Invalid answer choice 'ans' for Question q. Choices: keys"
  \<^item> \<open>IncompleteAnswerSet\<close>: "Must provide answers for all 13 unique questions."
  \<^item> \<open>AllocationNotConfigured t\<close>: "Bibit score t not found in allocation table."
\<close>

datatype detail =
    DuplicateQuestion int
  | UnknownQuestion int
  | InvalidChoice string int "string list"
  | IncompleteAnswerSet
  | AllocationNotConfigured rat

datatype error = HTTPException (status_code: int) (detail: detail)

subsection \<open>Python floats\<close>

text \<open>
  A Python \<open>float\<close> is an IEEE-754 binary64 number. A finite one is modelled by the
  rational number it denotes, and every arithmetic operation returns the exact result
  rounded to the nearest binary64 number, ties to even: a 53-bit significand, and the
  exponent of the last place never below \<open>-1074\<close> (subnormal numbers). Overflow to
  infinity is not modelled: no operation below has an operand above \<open>47 * 9\<close>. NaN and
  the infinities are not values of the model.
\<close>

text \<open>Rounding to the nearest integer, ties to the even one: what the built-in
  \<open>round\<close> does to a float, and what a float operation does to a significand.\<close>

definition round_half_even :: "rat \<Rightarrow> int" where
  "round_half_even x =
     (let f = \<lfloor>x\<rfloor>; r = x - of_int f in
      if r < 1/2 then f else if r > 1/2 then f + 1 else if even f then f else f + 1)"

text \<open>The binary exponent of a positive rational: \<open>2 powi ilog2 q \<le> q < 2 powi (ilog2 q + 1)\<close>.\<close>

definition ilog2 :: "rat \<Rightarrow> int" where
  "ilog2 q = (let (a, b) = quotient_of q; d = bitlen a - bitlen b in
              if 2 powi d \<le> q then d else d - 1)"

definition binary64 :: "rat \<Rightarrow> rat" where
  "binary64 q =
     (if q = 0 then 0
      else let e = max (ilog2 \<bar>q\<bar>) (- 1022); ulp = 2 powi (e - 52) in
           of_int (round_half_even (q / ulp)) * ulp)"

definition float_add :: "rat \<Rightarrow> rat \<Rightarrow> rat" where
  "float_add a b = binary64 (a + b)"

definition float_sub :: "rat \<Rightarrow> rat \<Rightarrow> rat" where
  "float_sub a b = binary64 (a - b)"

definition float_mul :: "rat \<Rightarrow> rat \<Rightarrow> rat" where
  "float_mul a b = binary64 (a * b)"

text \<open>Both divisors of the source are non-zero constants, so \<open>ZeroDivisionError\<close> is
  not a branch.\<close>

definition float_truediv :: "rat \<Rightarrow> rat \<Rightarrow> rat" where
  "float_truediv a b = binary64 (a / b)"

text \<open>\<open>float(n)\<close>, also the conversion of the \<open>int\<close> operand in \<open>int * float\<close>.\<close>

definition float_of_int :: "int \<Rightarrow> rat" where
  "float_of_int n = binary64 (of_int n)"

text \<open>\<open>round(x)\<close> with one argument returns an \<open>int\<close>.\<close>

definition py_round :: "rat \<Rightarrow> int" where
  "py_round x = round_half_even x"

subsection \<open>Stage 1: calculate_gl_score\<close>

text \<open>The \<open>for\<close> loop, with its two locals \<open>score\<close> and \<open>answered_questions\<close> as the
  state. A \<open>raise\<close> leaves the loop with \<open>Inl\<close>.\<close>

fun gl_loop :: "Answer list \<Rightarrow> int \<times> int set \<Rightarrow> error + int \<times> int set" where
  "gl_loop [] (score, answered_questions) = Inr (score, answered_questions)"
| "gl_loop (item # rest) (score, answered_questions) =
     (let q_num = question item; ans = answer item in
      if q_num \<in> answered_questions
      then Inl (HTTPException 400 (DuplicateQuestion q_num))
      else
        (case map_of GL_SCORING_KEY q_num of
           None \<Rightarrow> Inl (HTTPException 400 (UnknownQuestion q_num))
         | Some choices \<Rightarrow>
             (case map_of choices ans of
                None \<Rightarrow> Inl (HTTPException 400 (InvalidChoice ans q_num (map fst choices)))
              | Some points \<Rightarrow> gl_loop rest (score + points, insert q_num answered_questions))))"

definition calculate_gl_score :: "Answer list \<Rightarrow> error + rat" where
  "calculate_gl_score as =
     (case gl_loop as (0, {}) of
        Inl e \<Rightarrow> Inl e
      | Inr (score, answered_questions) \<Rightarrow>
          if card answered_questions \<noteq> 13
          then Inl (HTTPException 400 IncompleteAnswerSet)
          else Inr (float_of_int score))"

subsection \<open>Stage 2: scale_to_bibit_score\<close>

text \<open>The argument \<open>gl_score\<close> is written \<open>gl\<close>, the longer name being a field of the
  response. The local \<open>unrounded_b_score\<close> as a function of the argument:
  \<open>Y_min + (gl_score * (Y_max - Y_min) / (X_max - X_min))\<close>, in float operations.\<close>

definition unrounded_b_score :: "rat \<Rightarrow> rat" where
  "unrounded_b_score gl =
     (let X_min = 0; X_max = 47; Y_min = 1; Y_max = 10 in
      float_add Y_min
        (float_truediv (float_mul gl (float_sub Y_max Y_min)) (float_sub X_max X_min)))"

definition scale_to_bibit_score :: "rat \<Rightarrow> rat" where
  "scale_to_bibit_score gl =
     (let X_min = 0; X_max = 47; Y_min = 1; Y_max = 10 in
      if gl \<le> X_min then Y_min
      else if gl \<ge> X_max then Y_max
      else
        let step = 1/2;
            rounded_b_score =
              float_mul
                (float_of_int (py_round (float_truediv (unrounded_b_score gl) step)))
                step
        in max Y_min (min Y_max rounded_b_score))"

subsection \<open>Stage 3: get_allocations, and the endpoint assess_risk\<close>

definition get_allocations :: "rat \<Rightarrow> error + allocation" where
  "get_allocations bibit_score =
     (case map_of BIBIT_ALLOCATIONS bibit_score of
        None \<Rightarrow> Inl (HTTPException 500 (AllocationNotConfigured bibit_score))
      | Some allocation_data \<Rightarrow> Inr allocation_data)"

text \<open>The response model declares \<open>allocations: Dict[str, float]\<close>, so the three integer
  weights are converted to floats when the response is built.\<close>

definition assess_risk :: "RiskAssessmentPayload \<Rightarrow> error + AllocationResponse" where
  "assess_risk payload =
     (case calculate_gl_score (answers payload) of
        Inl e \<Rightarrow> Inl e
      | Inr gl \<Rightarrow>
          (let bibit_score = scale_to_bibit_score gl in
           case get_allocations bibit_score of
             Inl e \<Rightarrow> Inl e
           | Inr allocation_data \<Rightarrow>
               Inr \<lparr>gl_score = gl,
                    risk_profile_score = bibit_score,
                    profile = allocation.profile allocation_data,
                    allocations =
                      [(''money_market'', float_of_int (money_market allocation_data)),
                       (''obligation'', float_of_int (obligation allocation_data)),
                       (''stocks'', float_of_int (stocks allocation_data))]\<rparr>))"

subsection \<open>Vocabulary of the properties\<close>

text \<open>The table value of one entry, if its question is in the table and its choice is
  one of that question's choices.\<close>

definition entry_points :: "Answer \<Rightarrow> int option" where
  "entry_points a =
     (case map_of GL_SCORING_KEY (question a) of
        None \<Rightarrow> None
      | Some choices \<Rightarrow> map_of choices (answer a))"

definition points_of :: "Answer \<Rightarrow> int" where
  "points_of a = (case entry_points a of None \<Rightarrow> 0 | Some p \<Rightarrow> p)"

definition scorable :: "Answer \<Rightarrow> bool" where
  "scorable a \<longleftrightarrow> entry_points a \<noteq> None"

text \<open>A valid answer set: 13 entries, every question 1 to 13 exactly once, every
  choice one of its question's choices.\<close>

definition valid_answer_set :: "Answer list \<Rightarrow> bool" where
  "valid_answer_set as \<longleftrightarrow>
     length as = 13 \<and> distinct (map question as) \<and> set (map question as) = {1..13} \<and>
     list_all scorable as"

text \<open>The largest point value that the table gives a question, and the choice that
  has it.\<close>

definition max_points :: "int \<Rightarrow> int" where
  "max_points q =
     (case map_of GL_SCORING_KEY q of
        None \<Rightarrow> 0
      | Some choices \<Rightarrow> foldr max (map snd choices) 0)"

definition picks_max :: "Answer \<Rightarrow> bool" where
  "picks_max a \<longleftrightarrow> entry_points a = Some (max_points (question a))"

definition best_choice :: "(string \<times> int) list \<Rightarrow> string" where
  "best_choice choices =
     fst (foldr (\<lambda>c b. if snd b \<le> snd c then c else b) choices ('''', 0))"

definition max_answers :: "Answer list" where
  "max_answers =
     map (\<lambda>(q, choices). \<lparr>question = q, answer = best_choice choices\<rparr>) GL_SCORING_KEY"

text \<open>The 19 tiers, from 1.0 to 10.0 in steps of 0.5.\<close>

definition tiers :: "rat list" where
  "tiers = map (\<lambda>n. of_int n / 2) [2..20]"

section \<open>Properties of the float operations\<close>

lemma rhe_of_int: "round_half_even (of_int n) = n"
  by (simp add: round_half_even_def)

lemma rhe_ge_floor: "\<lfloor>x\<rfloor> \<le> round_half_even x"
  by (simp add: round_half_even_def Let_def)

lemma rhe_le_floor1: "round_half_even x \<le> \<lfloor>x\<rfloor> + 1"
  by (simp add: round_half_even_def Let_def)

lemma rhe_mono: 
  assumes "x \<le> y" shows "round_half_even x \<le> round_half_even y"
proof (cases "\<lfloor>x\<rfloor> = \<lfloor>y\<rfloor>")
  case True
  with assms show ?thesis
    by (auto simp: round_half_even_def Let_def)
next
  case False
  with assms have "\<lfloor>x\<rfloor> + 1 \<le> \<lfloor>y\<rfloor>"
    using floor_mono [of x y] by linarith
  then show ?thesis
    using rhe_le_floor1 [of x] rhe_ge_floor [of y] by linarith
qed

lemma rhe_near: "\<bar>of_int (round_half_even x) - x\<bar> \<le> 1/2"
  unfolding round_half_even_def Let_def
  by (auto simp: abs_if) linarith+

lemma quotient_of_pos:
  assumes "0 < q" "quotient_of q = (a, b)"
  shows "0 < a" "0 < b" "q = of_int a / of_int b"
  using assms quotient_of_denom_pos [of q a b] quotient_of_div [of q a b]
  by (auto simp: zero_less_divide_iff)

lemma two_powi_less_cancel:
  assumes "(2::rat) powi m < 2 powi n"
  shows "m < n"
proof (rule ccontr)
  assume "\<not> m < n"
  then have "n \<le> m" by simp
  then have "(2::rat) powi n \<le> 2 powi m" by (intro power_int_increasing) auto
  with assms show False by simp
qed

lemma bitlen_rat_bounds:
  assumes "0 < (a::int)"
  shows "(2::rat) powi (bitlen a - 1) \<le> of_int a" and "of_int a < (2::rat) powi (bitlen a)"
proof -
  from bitlen_bounds [OF assms]
  have 1: "2 ^ nat (bitlen a - 1) \<le> a" and 2: "a < 2 ^ nat (bitlen a)" by auto
  have pos: "1 \<le> bitlen a"
    using assms bitlen_nonneg [of a] bitlen_eq_zero_iff [of a] by linarith
  have "(2::rat) powi (bitlen a - 1) = 2 ^ nat (bitlen a - 1)"
    using pos by (simp add: power_int_def)
  also have "\<dots> = of_int (2 ^ nat (bitlen a - 1))" by simp
  also have "\<dots> \<le> of_int a" using 1 by (subst of_int_le_iff)
  finally show "(2::rat) powi (bitlen a - 1) \<le> of_int a" .
  have "(of_int a :: rat) < of_int (2 ^ nat (bitlen a))" using 2 by (subst of_int_less_iff)
  also have "\<dots> = 2 ^ nat (bitlen a)" by simp
  also have "\<dots> = (2::rat) powi (bitlen a)"
    using pos by (simp add: power_int_def)
  finally show "of_int a < (2::rat) powi (bitlen a)" .
qed

lemma ilog2_bounds:
  assumes "0 < q"
  shows "2 powi (ilog2 q) \<le> q" and "q < 2 powi (ilog2 q + 1)"
proof -
  obtain a b where ab: "quotient_of q = (a, b)" by (cases "quotient_of q")
  from quotient_of_pos [OF assms ab]
  have a: "0 < a" and b: "0 < b" and q: "q = of_int a / of_int b" by auto
  define d where "d = bitlen a - bitlen b"
  have il: "ilog2 q = (if 2 powi d \<le> q then d else d - 1)"
    by (simp add: ilog2_def ab d_def Let_def)
  have bpos: "(0::rat) < of_int b" using b by simp
  have "q < 2 powi (bitlen a) / of_int b"
    unfolding q using bitlen_rat_bounds(2) [OF a] bpos by (simp add: divide_strict_right_mono)
  also have "\<dots> \<le> 2 powi (bitlen a) / 2 powi (bitlen b - 1)"
    using bitlen_rat_bounds(1) [OF b] bpos by (intro divide_left_mono) (auto intro!: mult_pos_pos)
  also have "\<dots> = 2 powi (d + 1)"
    by (simp add: d_def power_int_diff power_int_add)
  finally have up: "q < 2 powi (d + 1)" .
  have "d - 1 = (bitlen a - 1) - bitlen b" by (simp add: d_def)
  then have "(2::rat) powi (d - 1) = 2 powi ((bitlen a - 1) - bitlen b)" by (rule arg_cong)
  also have "\<dots> = 2 powi (bitlen a - 1) / 2 powi (bitlen b)"
    by (rule power_int_diff) simp
  also have "\<dots> \<le> of_int a / 2 powi (bitlen b)"
    using bitlen_rat_bounds(1) [OF a] by (simp add: divide_right_mono)
  also have "\<dots> \<le> of_int a / of_int b"
    using bitlen_rat_bounds(2) [OF b] a bpos by (intro divide_left_mono) (auto intro!: mult_pos_pos)
  finally have lo: "2 powi (d - 1) \<le> q" by (simp add: q)
  show "2 powi (ilog2 q) \<le> q" using lo by (simp add: il)
  show "q < 2 powi (ilog2 q + 1)" using up by (auto simp: il not_le)
qed

lemma ilog2_unique:
  assumes "2 powi e \<le> q" "q < 2 powi (e + 1)"
  shows "ilog2 q = e"
proof -
  have "(0::rat) < 2 powi e" by simp
  with assms have q: "0 < q" by linarith
  from ilog2_bounds [OF q] assms
  have "(2::rat) powi (ilog2 q) < 2 powi (e + 1)" "(2::rat) powi e < 2 powi (ilog2 q + 1)"
    by linarith+
  then have "ilog2 q < e + 1" "e < ilog2 q + 1"
    by (auto dest: two_powi_less_cancel)
  then show ?thesis by linarith
qed

lemma ilog2_mono:
  assumes "0 < a" "a \<le> b"
  shows "ilog2 a \<le> ilog2 b"
proof -
  have b: "0 < b" using assms by linarith
  from ilog2_bounds(1) [OF assms(1)] ilog2_bounds(2) [OF b] assms(2)
  have "(2::rat) powi (ilog2 a) < 2 powi (ilog2 b + 1)" by linarith
  then have "ilog2 a < ilog2 b + 1" by (rule two_powi_less_cancel)
  then show ?thesis by linarith
qed


lemma two_powi_add: "(2::rat) powi (m + n) = 2 powi m * 2 powi n"
  by (simp add: power_int_add)

lemma scaled_int_mono:
  assumes "m \<le> n"
  shows "(of_int m :: rat) * 2 powi u \<le> of_int n * 2 powi u"
proof -
  have "(of_int m :: rat) \<le> of_int n" using assms by (subst of_int_le_iff)
  then show ?thesis by (intro mult_right_mono) auto
qed

lemma binary64_pos_eq:
  assumes "0 < q"
  shows "binary64 q =
     of_int (round_half_even (q / 2 powi (max (ilog2 q) (- 1022) - 52))) *
       2 powi (max (ilog2 q) (- 1022) - 52)"
  using assms by (simp add: binary64_def Let_def)

lemma binary64_nonneg:
  assumes "0 \<le> q" shows "0 \<le> binary64 q"
proof (cases "q = 0")
  case True
  then show ?thesis by (simp add: binary64_def)
next
  case False
  with assms have q: "0 < q" by simp
  define u where "u = max (ilog2 q) (- 1022) - 52"
  have "0 \<le> q / 2 powi u" using q by simp
  then have "0 \<le> \<lfloor>q / 2 powi u\<rfloor>" by simp
  then have "0 \<le> round_half_even (q / 2 powi u)"
    using rhe_ge_floor [of "q / 2 powi u"] by linarith
  then show ?thesis
    unfolding binary64_pos_eq [OF q] u_def [symmetric] by simp
qed

lemma binary64_upper:
  assumes "0 < q"
  shows "binary64 q \<le> 2 powi (max (ilog2 q) (- 1022) + 1)"
proof -
  define e where "e = max (ilog2 q) (- 1022)"
  define u where "u = e - 52"
  have upos: "(0::rat) < 2 powi u" by simp
  have e1: "e + 1 = u + 53" by (simp add: u_def)
  have "q < 2 powi (ilog2 q + 1)" by (rule ilog2_bounds(2) [OF assms])
  also have "\<dots> \<le> 2 powi (e + 1)"
    by (intro power_int_increasing) (auto simp: e_def)
  also have "\<dots> = 2 powi u * 2 ^ 53"
    unfolding e1 two_powi_add by simp
  finally have "q / 2 powi u < of_int (2 ^ 53)"
    using upos by (simp add: field_simps)
  then have "round_half_even (q / 2 powi u) \<le> round_half_even (of_int (2 ^ 53))"
    by (intro rhe_mono) simp
  then have "round_half_even (q / 2 powi u) \<le> 2 ^ 53"
    by (simp only: rhe_of_int)
  then have "(of_int (round_half_even (q / 2 powi u)) :: rat) * 2 powi u \<le> of_int (2 ^ 53) * 2 powi u"
    by (rule scaled_int_mono)
  also have "\<dots> = 2 powi (e + 1)"
    unfolding e1 two_powi_add by simp
  finally show ?thesis
    unfolding binary64_pos_eq [OF assms] e_def [symmetric] u_def [symmetric] .
qed

lemma binary64_lower:
  assumes "0 < q" "- 1022 \<le> ilog2 q"
  shows "2 powi (ilog2 q) \<le> binary64 q"
proof -
  define e where "e = ilog2 q"
  define u where "u = e - 52"
  have emax: "max (ilog2 q) (- 1022) = e" using assms(2) by (simp add: e_def)
  have upos: "(0::rat) < 2 powi u" by simp
  have e1: "e = u + 52" by (simp add: u_def)
  have split: "(2::rat) powi e = 2 powi u * 2 ^ 52"
    by (subst e1, subst two_powi_add) simp
  have "2 powi e \<le> q" unfolding e_def by (rule ilog2_bounds(1) [OF assms(1)])
  then have "of_int (2 ^ 52) \<le> q / 2 powi u"
    using upos by (simp add: field_simps split)
  then have "round_half_even (of_int (2 ^ 52)) \<le> round_half_even (q / 2 powi u)"
    by (rule rhe_mono)
  then have "2 ^ 52 \<le> round_half_even (q / 2 powi u)"
    by (simp only: rhe_of_int)
  then have "(of_int (2 ^ 52) :: rat) * 2 powi u \<le> of_int (round_half_even (q / 2 powi u)) * 2 powi u"
    by (rule scaled_int_mono)
  then show ?thesis
    unfolding binary64_pos_eq [OF assms(1)] emax u_def [symmetric]
    using split by (simp add: e_def [symmetric] mult.commute)
qed

lemma binary64_mono_pos:
  assumes "0 < a" "a \<le> b"
  shows "binary64 a \<le> binary64 b"
proof -
  have b: "0 < b" using assms by linarith
  define ea where "ea = max (ilog2 a) (- 1022)"
  define eb where "eb = max (ilog2 b) (- 1022)"
  have le: "ea \<le> eb"
    using ilog2_mono [OF assms] by (simp add: ea_def eb_def)
  show ?thesis
  proof (cases "ea = eb")
    case True
    have upos: "(0::rat) < 2 powi (ea - 52)" by simp
    have "a / 2 powi (ea - 52) \<le> b / 2 powi (ea - 52)"
      using assms(2) upos by (simp add: divide_right_mono)
    then have "round_half_even (a / 2 powi (ea - 52)) \<le> round_half_even (b / 2 powi (ea - 52))"
      by (rule rhe_mono)
    then have "(of_int (round_half_even (a / 2 powi (ea - 52))) :: rat) * 2 powi (ea - 52)
                 \<le> of_int (round_half_even (b / 2 powi (ea - 52))) * 2 powi (ea - 52)"
      by (rule scaled_int_mono)
    then show ?thesis
      unfolding binary64_pos_eq [OF assms(1)] binary64_pos_eq [OF b]
        ea_def [symmetric] eb_def [symmetric] True [symmetric] .
  next
    case False
    with le have lt: "ea < eb" by simp
    then have eb: "eb = ilog2 b" "- 1022 \<le> ilog2 b"
      by (auto simp: ea_def eb_def)
    have "binary64 a \<le> 2 powi (ea + 1)"
      unfolding ea_def by (rule binary64_upper [OF assms(1)])
    also have "\<dots> \<le> 2 powi eb"
      using lt by (intro power_int_increasing) auto
    also have "\<dots> \<le> binary64 b"
      unfolding eb(1) by (rule binary64_lower [OF b eb(2)])
    finally show ?thesis .
  qed
qed

lemma binary64_mono:
  assumes "0 \<le> a" "a \<le> b"
  shows "binary64 a \<le> binary64 b"
proof (cases "a = 0")
  case True
  have "0 \<le> binary64 b" using assms by (intro binary64_nonneg) simp
  then show ?thesis by (simp add: True binary64_def)
next
  case False
  with assms show ?thesis by (intro binary64_mono_pos) auto
qed


lemma binary64_exact:
  assumes "0 \<le> m" "m < 2 ^ 53" "- 1074 \<le> k"
  shows "binary64 (of_int m * 2 powi k) = of_int m * 2 powi k"
proof (cases "m = 0")
  case True
  then show ?thesis by (simp add: binary64_def)
next
  case False
  with assms have m: "0 < m" by simp
  define q :: rat where "q = of_int m * 2 powi k"
  have q: "0 < q" using m by (simp add: q_def)
  define u where "u = max (ilog2 q) (- 1022) - 52"
  have "(of_int m :: rat) < of_int (2 ^ 53)" using assms(2) by (subst of_int_less_iff)
  then have "q < of_int (2 ^ 53) * 2 powi k"
    unfolding q_def by (intro mult_strict_right_mono) auto
  also have "\<dots> = 2 powi (k + 53)" unfolding two_powi_add by simp
  finally have "2 powi (ilog2 q) < (2::rat) powi (k + 53)"
    using ilog2_bounds(1) [OF q] by linarith
  then have "ilog2 q < k + 53" by (rule two_powi_less_cancel)
  with assms(3) have uk: "u \<le> k" by (simp add: u_def)
  define d where "d = nat (k - u)"
  have k: "k = u + int d" using uk by (simp add: d_def)
  have "q / 2 powi u = of_int m * 2 ^ d"
    unfolding q_def k two_powi_add by simp
  also have "\<dots> = of_int (m * 2 ^ d)" by simp
  finally have "round_half_even (q / 2 powi u) = m * 2 ^ d"
    by (simp only: rhe_of_int)
  then have "binary64 q = of_int (m * 2 ^ d) * 2 powi u"
    unfolding binary64_pos_eq [OF q] u_def [symmetric] by simp
  also have "\<dots> = q"
    unfolding q_def k two_powi_add by simp
  finally show ?thesis unfolding q_def .
qed

lemma binary64_of_int:
  assumes "0 \<le> n" "n < 2 ^ 53"
  shows "binary64 (of_int n) = of_int n"
  using binary64_exact [OF assms, of 0] by simp

lemma binary64_half_int:
  assumes "0 \<le> n" "n < 2 ^ 53"
  shows "binary64 (of_int n * (1/2)) = of_int n * (1/2)"
  using binary64_exact [OF assms, of "- 1"] by simp

lemma mantissa_bounds:
  assumes "0 < q"
  shows "0 \<le> round_half_even (q / 2 powi (max (ilog2 q) (- 1022) - 52))"
    and "round_half_even (q / 2 powi (max (ilog2 q) (- 1022) - 52)) \<le> 2 ^ 53"
proof -
  define e where "e = max (ilog2 q) (- 1022)"
  define u where "u = e - 52"
  have upos: "(0::rat) < 2 powi u" by simp
  have e1: "e + 1 = u + 53" by (simp add: u_def)
  have "0 \<le> q / 2 powi u" using assms by simp
  then have "0 \<le> \<lfloor>q / 2 powi u\<rfloor>" by simp
  then show "0 \<le> round_half_even (q / 2 powi (max (ilog2 q) (- 1022) - 52))"
    unfolding e_def [symmetric] u_def [symmetric]
    using rhe_ge_floor [of "q / 2 powi u"] by linarith
  have "q < 2 powi (ilog2 q + 1)" by (rule ilog2_bounds(2) [OF assms])
  also have "\<dots> \<le> 2 powi (e + 1)"
    by (intro power_int_increasing) (auto simp: e_def)
  also have "\<dots> = 2 powi u * 2 ^ 53"
    unfolding e1 two_powi_add by simp
  finally have "q / 2 powi u < of_int (2 ^ 53)"
    using upos by (simp add: field_simps)
  then have "round_half_even (q / 2 powi u) \<le> round_half_even (of_int (2 ^ 53))"
    by (intro rhe_mono) simp
  then show "round_half_even (q / 2 powi (max (ilog2 q) (- 1022) - 52)) \<le> 2 ^ 53"
    unfolding e_def [symmetric] u_def [symmetric] by (simp only: rhe_of_int)
qed

lemma binary64_representable:
  assumes "0 \<le> q"
  shows "\<exists>m k. binary64 q = of_int m * 2 powi k \<and> 0 \<le> m \<and> m < 2 ^ 53 \<and> - 1074 \<le> k"
proof (cases "q = 0")
  case True
  have "binary64 q = of_int 0 * 2 powi 0" by (simp add: True binary64_def)
  then show ?thesis by (intro exI [of _ 0]) simp
next
  case False
  with assms have q: "0 < q" by simp
  define u where "u = max (ilog2 q) (- 1022) - 52"
  define n where "n = round_half_even (q / 2 powi u)"
  have n: "0 \<le> n" "n \<le> 2 ^ 53"
    using mantissa_bounds [OF q] by (simp_all add: n_def u_def)
  have u: "- 1074 \<le> u" by (simp add: u_def)
  have b: "binary64 q = of_int n * 2 powi u"
    unfolding binary64_pos_eq [OF q] u_def [symmetric] n_def ..
  show ?thesis
  proof (cases "n = 2 ^ 53")
    case True
    have "binary64 q = of_int (2 ^ 52) * 2 powi (u + 1)"
      unfolding b True two_powi_add by simp
    moreover have "(0::int) \<le> 2 ^ 52" "(2::int) ^ 52 < 2 ^ 53" "- 1074 \<le> u + 1"
      using u by simp_all
    ultimately show ?thesis by blast
  next
    case False
    with n have "n < 2 ^ 53" by simp
    with b n(1) u show ?thesis by blast
  qed
qed

lemma binary64_idem:
  assumes "0 \<le> q"
  shows "binary64 (binary64 q) = binary64 q"
proof -
  from binary64_representable [OF assms] obtain m k where
    "binary64 q = of_int m * 2 powi k" "0 \<le> m" "m < 2 ^ 53" "- 1074 \<le> k" by blast
  then show ?thesis using binary64_exact [of m k] by simp
qed

lemma binary64_double:
  assumes "0 \<le> q"
  shows "binary64 (binary64 q / (1/2)) = binary64 q / (1/2)"
proof -
  from binary64_representable [OF assms] obtain m k where
    mk: "binary64 q = of_int m * 2 powi k" "0 \<le> m" "m < 2 ^ 53" "- 1074 \<le> k" by blast
  have "binary64 q / (1/2) = of_int m * 2 powi (k + 1)"
    unfolding mk(1) two_powi_add by simp
  moreover have "binary64 (of_int m * 2 powi (k + 1)) = of_int m * 2 powi (k + 1)"
    using mk by (intro binary64_exact) auto
  ultimately show ?thesis by simp
qed

lemma binary64_numeral:
  assumes "numeral k < (2::int) ^ 53"
  shows "binary64 (numeral k) = numeral k"
  using binary64_of_int [of "numeral k"] assms by simp

lemma binary64_one: "binary64 1 = 1"
  using binary64_of_int [of 1] by simp

lemma binary64_error:
  assumes "0 \<le> q" "q < 2 powi K" "- 1021 \<le> K"
  shows "\<bar>binary64 q - q\<bar> \<le> 2 powi (K - 54)"
proof (cases "q = 0")
  case True
  then show ?thesis by (simp add: binary64_def)
next
  case False
  with assms have q: "0 < q" by simp
  define u where "u = max (ilog2 q) (- 1022) - 52"
  have upos: "(0::rat) < 2 powi u" by simp
  have "(2::rat) powi (ilog2 q) < 2 powi K"
    using ilog2_bounds(1) [OF q] assms(2) by linarith
  then have "ilog2 q < K" by (rule two_powi_less_cancel)
  with assms(3) have uK: "u + 1 \<le> K - 52" by (simp add: u_def)
  have "binary64 q - q = (of_int (round_half_even (q / 2 powi u)) - q / 2 powi u) * 2 powi u"
    unfolding binary64_pos_eq [OF q] u_def [symmetric] by (simp add: algebra_simps)
  then have "\<bar>binary64 q - q\<bar> = \<bar>of_int (round_half_even (q / 2 powi u)) - q / 2 powi u\<bar> * 2 powi u"
    by (simp add: abs_mult)
  also have "\<dots> \<le> (1/2) * 2 powi u"
    using rhe_near [of "q / 2 powi u"] upos by (intro mult_right_mono) auto
  also have "\<dots> = 2 powi (u + 1) / 4"
    unfolding two_powi_add by simp
  also have "\<dots> \<le> 2 powi (K - 52) / 4"
    using uK by (intro divide_right_mono power_int_increasing) auto
  also have "\<dots> = 2 powi (K - 54)"
  proof -
    have "K - 52 = (K - 54) + 2" by simp
    then have "(2::rat) powi (K - 52) = 2 powi (K - 54) * 4"
      by (simp only: two_powi_add) simp
    then show ?thesis by simp
  qed
  finally show ?thesis .
qed

text \<open>The value of the literal \<open>0.1\<close>, as a check of the rounding against a known
  binary64 number.\<close>

lemma binary64_tenth: "binary64 (1/10) = 3602879701896397 / 36028797018963968"
  by code_simp

lemma float_of_int_exact: "0 \<le> n \<Longrightarrow> n < 2 ^ 53 \<Longrightarrow> float_of_int n = of_int n"
  by (simp add: float_of_int_def binary64_of_int)

lemma half_steps_exact:
  assumes "0 \<le> n" "n < 2 ^ 53"
  shows "float_mul (float_of_int n) (1/2) = of_int n * (1/2)"
proof -
  have "float_of_int n = of_int n"
    unfolding float_of_int_def using assms by (rule binary64_of_int)
  then have "float_mul (float_of_int n) (1/2) = binary64 (of_int n * (1/2))"
    by (simp only: float_mul_def)
  also have "\<dots> = of_int n * (1/2)"
    using assms by (rule binary64_half_int)
  finally show ?thesis .
qed

section \<open>Properties of the scoring loop\<close>

lemma max_answers_eval: "max_answers =
  [\<lparr>question = 1, answer = ''A''\<rparr>, \<lparr>question = 2, answer = ''D''\<rparr>,
   \<lparr>question = 3, answer = ''D''\<rparr>, \<lparr>question = 4, answer = ''C''\<rparr>,
   \<lparr>question = 5, answer = ''C''\<rparr>, \<lparr>question = 6, answer = ''D''\<rparr>,
   \<lparr>question = 7, answer = ''D''\<rparr>, \<lparr>question = 8, answer = ''D''\<rparr>,
   \<lparr>question = 9, answer = ''B''\<rparr>, \<lparr>question = 10, answer = ''B''\<rparr>,
   \<lparr>question = 11, answer = ''D''\<rparr>, \<lparr>question = 12, answer = ''D''\<rparr>,
   \<lparr>question = 13, answer = ''D''\<rparr>]"
  by (simp add: max_answers_def GL_SCORING_KEY_def best_choice_def)

lemma range_1_13: "{1..13} = {1, 2, 3, 4, 5, 6, 7, 8, 9, 10, 11, 12, 13 :: int}"
  by auto arith

lemma known_question_range:
  assumes "map_of GL_SCORING_KEY q = Some choices"
  shows "q \<in> {1..13}"
  using assms by (simp add: GL_SCORING_KEY_def split: if_splits)

lemma scorable_question_range: "scorable a \<Longrightarrow> question a \<in> {1..13}"
  by (auto simp: scorable_def entry_points_def split: option.splits
      dest: known_question_range)

lemma gl_loop_ok:
  assumes "distinct (map question as)" "question ` set as \<inter> A = {}" "list_all scorable as"
  shows "gl_loop as (s, A) = Inr (s + sum_list (map points_of as), A \<union> question ` set as)"
  using assms
proof (induction as arbitrary: s A)
  case Nil
  then show ?case by simp
next
  case (Cons a as)
  from Cons.prems(3) obtain choices p where
    c: "map_of GL_SCORING_KEY (question a) = Some choices" and p: "map_of choices (answer a) = Some p"
    by (auto simp: scorable_def entry_points_def split: option.splits)
  have pts: "points_of a = p" by (simp add: points_of_def entry_points_def c p)
  have notin: "question a \<notin> A" using Cons.prems(2) by auto
  have IH: "gl_loop as (s + p, insert (question a) A) =
      Inr (s + p + sum_list (map points_of as), insert (question a) A \<union> question ` set as)"
    using Cons.prems by (intro Cons.IH) auto
  show ?case
    by (simp add: Let_def notin c p IH pts add.assoc)
qed

lemma gl_loop_append:
  assumes "gl_loop pre st = Inr st'"
  shows "gl_loop (pre @ rest) st = gl_loop rest st'"
  using assms
proof (induction pre arbitrary: st)
  case Nil
  then show ?case by (cases st) simp
next
  case (Cons a pre)
  obtain s A where st: "st = (s, A)" by (cases st)
  from Cons.prems show ?case
    unfolding st
    by (auto simp: Let_def split: if_splits option.splits intro: Cons.IH)
qed

lemma card_questions_13:
  assumes "list_all scorable as"
  shows "card (question ` set as) = 13 \<longleftrightarrow> set (map question as) = {1..13}"
proof -
  have sub: "question ` set as \<subseteq> {1..13}"
    using assms scorable_question_range by (fastforce simp: list_all_iff)
  have c13: "card ({1..13::int}) = 13" by simp
  show ?thesis
  proof
    assume "card (question ` set as) = 13"
    then have "question ` set as = {1..13}"
      using sub c13 by (intro card_subset_eq) auto
    then show "set (map question as) = {1..13}" by simp
  next
    assume "set (map question as) = {1..13}"
    then show "card (question ` set as) = 13" using c13 by simp
  qed
qed

lemma calculate_gl_score_valid:
  assumes "valid_answer_set as"
  shows "calculate_gl_score as = Inr (float_of_int (sum_list (map points_of as)))"
proof -
  from assms have d: "distinct (map question as)" and s: "set (map question as) = {1..13}"
    and v: "list_all scorable as" by (auto simp: valid_answer_set_def)
  have "gl_loop as (0, {}) = Inr (0 + sum_list (map points_of as), {} \<union> question ` set as)"
    using d v by (intro gl_loop_ok) auto
  moreover have "card (question ` set as) = 13"
    using card_questions_13 [OF v] s by simp
  ultimately show ?thesis by (simp add: calculate_gl_score_def)
qed

lemma entry_points_bounds:
  assumes "entry_points a = Some p"
  shows "1 \<le> p" "p \<le> max_points (question a)"
  using assms
  by (auto simp: entry_points_def max_points_def GL_SCORING_KEY_def
      split: if_splits option.splits)

lemma sum_max_points: "sum max_points {1..13} = 48"
  unfolding range_1_13 by (simp add: max_points_def GL_SCORING_KEY_def)

lemma sum_list_max_points:
  assumes "distinct (map question as)" "set (map question as) = {1..13}"
  shows "sum_list (map (\<lambda>a. max_points (question a)) as) = 48"
proof -
  have "sum_list (map (\<lambda>a. max_points (question a)) as)
      = sum_list (map max_points (map question as))"
    by (simp add: comp_def)
  also have "\<dots> = sum max_points (set (map question as))"
    using assms(1) by (rule sum_list_distinct_conv_sum_set)
  finally show ?thesis by (simp only: assms(2) sum_max_points)
qed

text \<open>What holds of every valid answer set under the table as it is written.\<close>

lemma calculate_gl_score_valid_range:
  assumes "valid_answer_set as"
  shows "\<exists>s. calculate_gl_score as = Inr s \<and> 13 \<le> s \<and> s \<le> 48"
proof -
  from assms have len: "length as = 13" and d: "distinct (map question as)"
    and s: "set (map question as) = {1..13}" and v: "list_all scorable as"
    by (auto simp: valid_answer_set_def)
  have each: "1 \<le> points_of a \<and> points_of a \<le> max_points (question a)" if "a \<in> set as" for a
  proof -
    from v that obtain p where p: "entry_points a = Some p"
      by (auto simp: list_all_iff scorable_def)
    then show ?thesis using entry_points_bounds [OF p] by (simp add: points_of_def)
  qed
  have "sum_list (map (\<lambda>a. 1) as) \<le> sum_list (map points_of as)"
    using each by (intro sum_list_mono) auto
  then have lo: "13 \<le> sum_list (map points_of as)"
    by (simp add: sum_list_triv len)
  have "sum_list (map points_of as) \<le> sum_list (map (\<lambda>a. max_points (question a)) as)"
    using each by (intro sum_list_mono) auto
  then have hi: "sum_list (map points_of as) \<le> 48"
    by (simp only: sum_list_max_points [OF d s])
  have "float_of_int (sum_list (map points_of as)) = of_int (sum_list (map points_of as))"
    using lo hi by (intro float_of_int_exact) auto
  moreover have "(of_int 13 :: rat) \<le> of_int (sum_list (map points_of as))"
    "(of_int (sum_list (map points_of as)) :: rat) \<le> of_int 48"
    using lo hi by (simp_all only: of_int_le_iff)
  ultimately show ?thesis
    using calculate_gl_score_valid [OF assms] by simp
qed

section \<open>Properties of the rescaler and of the lookup\<close>

lemma tiers_eval:
  "tiers = [1, 3/2, 2, 5/2, 3, 7/2, 4, 9/2, 5, 11/2, 6, 13/2, 7, 15/2, 8, 17/2, 9, 19/2, 10]"
  by (simp add: tiers_def upto_rec_numeral)

lemma unrounded_b_score_eq:
  "unrounded_b_score x = binary64 (1 + binary64 (binary64 (x * 9) / 47))"
  by (simp add: unrounded_b_score_def float_add_def float_truediv_def float_mul_def
      float_sub_def binary64_numeral)

lemma unrounded_b_score_mono:
  assumes "0 \<le> a" "a \<le> b"
  shows "unrounded_b_score a \<le> unrounded_b_score b"
proof -
  have "binary64 (a * 9) \<le> binary64 (b * 9)"
    using assms by (intro binary64_mono) auto
  moreover have "0 \<le> binary64 (a * 9)"
    using assms by (intro binary64_nonneg) auto
  ultimately have "binary64 (binary64 (a * 9) / 47) \<le> binary64 (binary64 (b * 9) / 47)"
    by (intro binary64_mono) (auto simp: divide_right_mono)
  moreover have "0 \<le> binary64 (binary64 (a * 9) / 47)"
    using \<open>0 \<le> binary64 (a * 9)\<close> by (intro binary64_nonneg) auto
  ultimately show ?thesis
    unfolding unrounded_b_score_eq by (intro binary64_mono) auto
qed

lemma unrounded_b_score_0: "unrounded_b_score 0 = 1"
  by (simp add: unrounded_b_score_eq binary64_def [of 0] binary64_one)

lemma unrounded_b_score_47: "unrounded_b_score 47 = 10"
  by (simp add: unrounded_b_score_eq binary64_numeral)

lemma unrounded_b_score_bounds:
  assumes "0 \<le> x" "x \<le> 47"
  shows "1 \<le> unrounded_b_score x" "unrounded_b_score x \<le> 10"
  using unrounded_b_score_mono [of 0 x] unrounded_b_score_mono [of x 47] assms
  by (simp_all add: unrounded_b_score_0 unrounded_b_score_47)

lemma unrounded_b_score_doubled:
  assumes "0 \<le> x"
  shows "float_truediv (unrounded_b_score x) (1/2) = unrounded_b_score x / (1/2)"
proof -
  have "0 \<le> binary64 (x * 9)" using assms by (intro binary64_nonneg) auto
  then have "0 \<le> binary64 (binary64 (x * 9) / 47)" by (intro binary64_nonneg) auto
  then have "0 \<le> 1 + binary64 (binary64 (x * 9) / 47)" by simp
  then show ?thesis
    unfolding float_truediv_def unrounded_b_score_eq by (rule binary64_double)
qed

lemma unrounded_b_score_error:
  assumes "0 \<le> x" "x \<le> 47"
  shows "\<bar>unrounded_b_score x - (1 + x * 9 / 47)\<bar> \<le> 3 / 2 ^ 50"
proof -
  define t1 where "t1 = binary64 (x * 9)"
  define t2 where "t2 = binary64 (t1 / 47)"
  have u: "unrounded_b_score x = binary64 (1 + t2)"
    by (simp add: unrounded_b_score_eq t1_def t2_def)
  have t1_nonneg: "0 \<le> t1" unfolding t1_def using assms by (intro binary64_nonneg) auto
  have "t1 \<le> binary64 423"
    unfolding t1_def using assms by (intro binary64_mono) auto
  then have t1_le: "t1 \<le> 423" by (simp add: binary64_numeral)
  have t2_nonneg: "0 \<le> t2" unfolding t2_def using t1_nonneg by (intro binary64_nonneg) auto
  have "t2 \<le> binary64 9"
    unfolding t2_def using t1_nonneg t1_le by (intro binary64_mono) auto
  then have t2_le: "t2 \<le> 9" by (simp add: binary64_numeral)
  have e1: "\<bar>t1 - x * 9\<bar> \<le> 2 powi (9 - 54)"
    unfolding t1_def using assms by (intro binary64_error) auto
  have e2: "\<bar>t2 - t1 / 47\<bar> \<le> 2 powi (4 - 54)"
    unfolding t2_def using t1_nonneg t1_le by (intro binary64_error) auto
  have e3: "\<bar>unrounded_b_score x - (1 + t2)\<bar> \<le> 2 powi (4 - 54)"
    unfolding u using t2_nonneg t2_le by (intro binary64_error) auto
  have p45: "(2::rat) powi (9 - 54) = 1 / 2 ^ 45" and p50: "(2::rat) powi (4 - 54) = 1 / 2 ^ 50"
    by (simp_all add: power_int_minus field_simps)
  have "\<bar>t1 / 47 - x * 9 / 47\<bar> = \<bar>t1 - x * 9\<bar> / 47"
    by (simp add: diff_divide_distrib [symmetric])
  also have "\<dots> \<le> (1 / 2 ^ 45) / 47"
    using e1 unfolding p45 by (intro divide_right_mono) auto
  also have "\<dots> \<le> 1 / 2 ^ 50" by simp
  finally have e1': "\<bar>t1 / 47 - x * 9 / 47\<bar> \<le> 1 / 2 ^ 50" .
  have "\<bar>unrounded_b_score x - (1 + x * 9 / 47)\<bar>
      \<le> \<bar>unrounded_b_score x - (1 + t2)\<bar> + \<bar>t2 - t1 / 47\<bar> + \<bar>t1 / 47 - x * 9 / 47\<bar>"
    by linarith
  also have "\<dots> \<le> 1 / 2 ^ 50 + 1 / 2 ^ 50 + 1 / 2 ^ 50"
    using e1' e2 e3 unfolding p50 by linarith
  finally show ?thesis by simp
qed

lemma py_round_doubled_bounds:
  assumes "0 \<le> x" "x \<le> 47"
  shows "2 \<le> py_round (unrounded_b_score x / (1/2))"
    and "py_round (unrounded_b_score x / (1/2)) \<le> 20"
proof -
  from unrounded_b_score_bounds [OF assms]
  have "of_int 2 \<le> unrounded_b_score x / (1/2)" "unrounded_b_score x / (1/2) \<le> of_int 20"
    by simp_all
  then have "round_half_even (of_int 2) \<le> round_half_even (unrounded_b_score x / (1/2))"
    "round_half_even (unrounded_b_score x / (1/2)) \<le> round_half_even (of_int 20)"
    by (auto intro: rhe_mono)
  then show "2 \<le> py_round (unrounded_b_score x / (1/2))"
    and "py_round (unrounded_b_score x / (1/2)) \<le> 20"
    unfolding py_round_def rhe_of_int by simp_all
qed

text \<open>The result for an argument strictly between the two bounds: the final clamp
  changes nothing there.\<close>

lemma scale_interior:
  assumes "0 < x" "x < 47"
  shows "scale_to_bibit_score x = of_int (py_round (unrounded_b_score x / (1/2))) * (1/2)"
proof -
  define n where "n = py_round (unrounded_b_score x / (1/2))"
  have n: "2 \<le> n" "n \<le> 20"
    using py_round_doubled_bounds [of x] assms by (simp_all add: n_def)
  have d: "float_truediv (unrounded_b_score x) (1/2) = unrounded_b_score x / (1/2)"
    using assms by (intro unrounded_b_score_doubled) simp
  have h: "float_mul (float_of_int n) (1/2) = of_int n * (1/2)"
    using n by (intro half_steps_exact) auto
  have "(of_int 2 :: rat) \<le> of_int n" "(of_int n :: rat) \<le> of_int 20"
    using n by (simp_all only: of_int_le_iff)
  then have r: "1 \<le> (of_int n :: rat) * (1/2)" "(of_int n :: rat) * (1/2) \<le> 10"
    by simp_all
  have "scale_to_bibit_score x = max 1 (min 10 (float_mul (float_of_int n) (1/2)))"
    using assms by (simp add: scale_to_bibit_score_def Let_def d n_def)
  also have "\<dots> = of_int n * (1/2)"
    unfolding h using r by (simp add: max_def min_def)
  finally show ?thesis by (simp add: n_def)
qed

lemma scale_near_unrounded:
  assumes "0 < x" "x < 47"
  shows "\<bar>scale_to_bibit_score x - unrounded_b_score x\<bar> \<le> 1/4"
proof -
  have "\<bar>of_int (round_half_even (unrounded_b_score x / (1/2))) - unrounded_b_score x / (1/2)\<bar> \<le> 1/2"
    by (rule rhe_near)
  then show ?thesis
    unfolding scale_interior [OF assms] py_round_def by (simp add: abs_if split: if_splits)
qed

lemma scale_in_range: "1 \<le> scale_to_bibit_score x \<and> scale_to_bibit_score x \<le> 10"
proof -
  consider "x \<le> 0" | "47 \<le> x" | "0 < x" "x < 47" by linarith
  then show ?thesis
  proof cases
    case 1
    then show ?thesis by (simp add: scale_to_bibit_score_def)
  next
    case 2
    then show ?thesis by (simp add: scale_to_bibit_score_def)
  next
    case 3
    then show ?thesis by (simp add: scale_to_bibit_score_def Let_def)
  qed
qed

lemma half_step_in_tiers:
  assumes "2 \<le> n" "n \<le> 20"
  shows "of_int n * (1/2) \<in> set tiers"
proof -
  have "n \<in> {2..20}" using assms by simp
  then have mem: "(of_int n / 2 :: rat) \<in> (\<lambda>n. of_int n / 2) ` {2..20}" by (rule imageI)
  have st: "set tiers = (\<lambda>n. of_int n / 2) ` {2..20}"
    by (simp only: tiers_def set_map set_upto)
  have eq: "of_int n * (1/2) = (of_int n / 2 :: rat)" by simp
  show ?thesis using mem by (simp only: eq st)
qed

lemma scale_in_tiers: "scale_to_bibit_score x \<in> set tiers"
proof -
  consider "x \<le> 0" | "47 \<le> x" | "0 < x" "x < 47" by linarith
  then show ?thesis
  proof cases
    case 1
    then show ?thesis by (simp add: scale_to_bibit_score_def tiers_eval)
  next
    case 2
    then show ?thesis by (simp add: scale_to_bibit_score_def tiers_eval)
  next
    case 3
    then show ?thesis
      unfolding scale_interior [OF 3]
      using py_round_doubled_bounds [of x] by (intro half_step_in_tiers) auto
  qed
qed

lemma allocation_keys: "map fst BIBIT_ALLOCATIONS = tiers"
  by (simp add: BIBIT_ALLOCATIONS_def tiers_eval)

lemma tier_configured:
  assumes "t \<in> set tiers"
  shows "\<exists>r. map_of BIBIT_ALLOCATIONS t = Some r"
proof -
  have "t \<in> fst ` set BIBIT_ALLOCATIONS"
    using assms by (simp add: allocation_keys flip: set_map)
  then show ?thesis by (metis map_of_eq_None_iff not_Some_eq)
qed

text \<open>Ties go to the even multiple of one half, that is, to a whole number; and off
  the ties the rounding error of the interpolation does not change the result.\<close>

lemma rhe_tie_even:
  assumes "\<bar>of_int (round_half_even y) - y\<bar> = 1/2"
  shows "even (round_half_even y)"
  using assms unfolding round_half_even_def Let_def
  by (auto simp: abs_if split: if_splits) linarith+

lemma scale_tie_whole:
  assumes "0 < t" "t < 47" "\<bar>scale_to_bibit_score t - unrounded_b_score t\<bar> = 1/4"
  shows "scale_to_bibit_score t \<in> \<int>"
proof -
  define n where "n = round_half_even (unrounded_b_score t / (1/2))"
  have s: "scale_to_bibit_score t = of_int n * (1/2)"
    using scale_interior [OF assms(1,2)] by (simp add: n_def py_round_def)
  have "\<bar>of_int n - unrounded_b_score t / (1/2)\<bar> = 2 * \<bar>scale_to_bibit_score t - unrounded_b_score t\<bar>"
    unfolding s by (simp add: abs_if)
  then have "\<bar>of_int n - unrounded_b_score t / (1/2)\<bar> = 1/2"
    using assms(3) by simp
  then have "even n" unfolding n_def by (rule rhe_tie_even)
  then obtain j where "n = 2 * j" by (auto elim: evenE)
  then have "scale_to_bibit_score t = of_int j" by (simp add: s)
  then show ?thesis by simp
qed

lemma scale_nearest_exact:
  assumes "0 < y" "y < 47"
    and off: "\<forall>m::int. 3 / 2 ^ 50 < \<bar>1 + y * 9 / 47 - (of_int m * (1/2) + 1/4)\<bar>"
  shows "\<bar>scale_to_bibit_score y - (1 + y * 9 / 47)\<bar> < 1/4"
proof -
  define n where "n = py_round (unrounded_b_score y / (1/2))"
  have s: "scale_to_bibit_score y = of_int n * (1/2)"
    using scale_interior [OF assms(1,2)] by (simp add: n_def)
  have near: "\<bar>scale_to_bibit_score y - unrounded_b_score y\<bar> \<le> 1/4"
    using assms(1,2) by (rule scale_near_unrounded)
  have err: "\<bar>unrounded_b_score y - (1 + y * 9 / 47)\<bar> \<le> 3 / 2 ^ 50"
    using assms(1,2) by (intro unrounded_b_score_error) auto
  have up: "3 / 2 ^ 50 < \<bar>1 + y * 9 / 47 - (of_int n * (1/2) + 1/4)\<bar>"
    using off by blast
  have e: "(of_int (n - 1) * (1/2) + 1/4 :: rat) = of_int n * (1/2) - 1/4"
    by (simp add: field_simps)
  have "3 / 2 ^ 50 < \<bar>1 + y * 9 / 47 - (of_int (n - 1) * (1/2) + 1/4)\<bar>"
    using off by blast
  then have down: "3 / 2 ^ 50 < \<bar>1 + y * 9 / 47 - (of_int n * (1/2) - 1/4)\<bar>"
    unfolding e .
  show ?thesis
    using near err up down unfolding s by linarith
qed

lemma integer_score_off_ties:
  "3 / 2 ^ 50 < \<bar>1 + of_int k * 9 / 47 - (of_int m * (1/2) + 1/4 :: rat)\<bar>"
proof -
  define z where "z = 141 + 36 * k - 94 * m"
  have "odd z" by (simp add: z_def)
  then have "z \<noteq> 0" by auto
  then have "1 \<le> \<bar>z\<bar>" by simp
  then have "(of_int 1 :: rat) \<le> of_int \<bar>z\<bar>" by (simp only: of_int_le_iff)
  then have z1: "(1::rat) \<le> \<bar>of_int z\<bar>" by simp
  have "1 + of_int k * 9 / 47 - (of_int m * (1/2) + 1/4 :: rat) = of_int z / 188"
    by (simp add: z_def field_simps)
  then have "\<bar>1 + of_int k * 9 / 47 - (of_int m * (1/2) + 1/4 :: rat)\<bar> = \<bar>of_int z / 188\<bar>"
    by (rule arg_cong)
  also have "\<dots> = \<bar>of_int z\<bar> / 188" by simp
  also have "\<dots> \<ge> 1 / 188" using z1 by (intro divide_right_mono) auto
  finally have "1 / 188 \<le> \<bar>1 + of_int k * 9 / 47 - (of_int m * (1/2) + 1/4 :: rat)\<bar>" .
  moreover have "(3::rat) / 2 ^ 50 < 1 / 188" by simp
  ultimately show ?thesis by (rule less_le_trans [rotated])
qed

lemma scale_integer_nearest:
  assumes "0 < k" "k < 47"
  shows "\<bar>scale_to_bibit_score (of_int k) - (1 + of_int k * 9 / 47)\<bar> < 1/4"
proof (rule scale_nearest_exact)
  show "(0::rat) < of_int k" using assms(1) by simp
  have "(of_int k :: rat) < of_int 47" using assms(2) by (simp only: of_int_less_iff)
  then show "(of_int k :: rat) < 47" by simp
  show "\<forall>m::int. 3 / 2 ^ 50 < \<bar>1 + of_int k * 9 / 47 - (of_int m * (1/2) + 1/4 :: rat)\<bar>"
    using integer_score_off_ties by blast
qed

section \<open>The claims\<close>

text \<open>
  C1. The claim: for every valid answer set (13 entries, every question 1 to 13 once,
  every choice valid for its question) \<open>calculate_gl_score\<close> does not fail and returns a
  value between 13 and 47. The response model documents the same range
  (\<open>gl_score\<close>: "Calculated Grable-Lytton Score (0-47)") and the rescaler takes
  \<open>X_max = 47\<close>. The table, however, gives question 12 a fourth choice worth 4 points,
  so its maxima add up to 48 (\<open>calculate_gl_score_valid_range\<close> above is what holds of
  the table as written). On the answer set \<open>max_answers\<close>, which satisfies the request
  model's field constraints and is a valid answer set, the function returns 48.
\<close>

theorem calculate_gl_score_max_answers:
  "valid_RiskAssessmentPayload \<lparr>answers = max_answers\<rparr> \<and> valid_answer_set max_answers \<and>
   calculate_gl_score max_answers = Inr 48"
  by (simp add: max_answers_eval valid_RiskAssessmentPayload_def valid_Answer_def
      valid_answer_set_def range_1_13 scorable_def entry_points_def
      calculate_gl_score_def GL_SCORING_KEY_def float_of_int_exact)

text \<open>
  C2. As stated (raw score 47, tier 10.0, label "Aggressive", allocation 10/20/70 for
  the answer set of maximal choices) the claim does not hold of the response: the label
  in the table is the localized ''Agresif'', and the raw score is the 48 of C1. What
  holds for every valid answer set whose entries each have the maximum point value of
  their question: the pipeline succeeds with tier 10, label ''Agresif'' and the
  allocation 10/20/70.
\<close>

theorem max_answers_pipeline:
  assumes "valid_answer_set as" "list_all picks_max as"
  shows "\<exists>gl. assess_risk \<lparr>answers = as\<rparr> =
           Inr \<lparr>gl_score = gl, risk_profile_score = 10, profile = ''Agresif'',
                allocations = [(''money_market'', 10), (''obligation'', 20), (''stocks'', 70)]\<rparr>"
proof -
  from assms(1) have d: "distinct (map question as)" and s: "set (map question as) = {1..13}"
    by (auto simp: valid_answer_set_def)
  have "map points_of as = map (\<lambda>a. max_points (question a)) as"
    using assms(2) by (auto simp: list_all_iff picks_max_def points_of_def)
  then have "sum_list (map points_of as) = 48"
    by (simp only: sum_list_max_points [OF d s])
  then have score: "calculate_gl_score as = Inr 48"
    using calculate_gl_score_valid [OF assms(1)] by (simp add: float_of_int_exact)
  have scale: "scale_to_bibit_score 48 = 10" by (simp add: scale_to_bibit_score_def)
  have look: "get_allocations 10 =
      Inr \<lparr>allocation.profile = ''Agresif'', money_market = 10, obligation = 20, stocks = 70\<rparr>"
    by (simp add: get_allocations_def BIBIT_ALLOCATIONS_def)
  show ?thesis
    by (simp add: assess_risk_def score scale look float_of_int_exact)
qed

text \<open>The witness: \<open>max_answers\<close> takes, for each question in table order, the choice
  with the largest value.\<close>

theorem max_answers_pipeline_witness:
  "valid_answer_set max_answers \<and> list_all picks_max max_answers \<and>
   (\<exists>gl. assess_risk \<lparr>answers = max_answers\<rparr> =
           Inr \<lparr>gl_score = gl, risk_profile_score = 10, profile = ''Agresif'',
                allocations = [(''money_market'', 10), (''obligation'', 20), (''stocks'', 70)]\<rparr>)"
proof -
  have v: "valid_answer_set max_answers"
    by (simp add: max_answers_eval valid_answer_set_def range_1_13 scorable_def
        entry_points_def GL_SCORING_KEY_def)
  have p: "list_all picks_max max_answers"
    by (simp add: max_answers_eval picks_max_def entry_points_def max_points_def
        GL_SCORING_KEY_def)
  show ?thesis using v p max_answers_pipeline [OF v p] by simp
qed

text \<open>The counterexample to C2 as stated: the response on \<open>max_answers\<close>.\<close>

theorem max_answers_pipeline_counterexample:
  "assess_risk \<lparr>answers = max_answers\<rparr> =
     Inr \<lparr>gl_score = 48, risk_profile_score = 10, profile = ''Agresif'',
          allocations = [(''money_market'', 10), (''obligation'', 20), (''stocks'', 70)]\<rparr>
   \<and> assess_risk \<lparr>answers = max_answers\<rparr> \<noteq>
     Inr \<lparr>gl_score = 47, risk_profile_score = 10, profile = ''Aggressive'',
          allocations = [(''money_market'', 10), (''obligation'', 20), (''stocks'', 70)]\<rparr>"
  by (simp add: assess_risk_def max_answers_eval calculate_gl_score_def GL_SCORING_KEY_def
      float_of_int_exact scale_to_bibit_score_def get_allocations_def BIBIT_ALLOCATIONS_def)

text \<open>
  C3. For every score, the allocation lookup of the rescaled score succeeds: the
  \<open>AllocationNotConfigured\<close> branch of \<open>get_allocations\<close> is not reached from
  \<open>scale_to_bibit_score\<close>, because each of the 19 tiers is a key of the table.
\<close>

theorem rescaled_score_always_configured:
  "\<exists>allocation_data. get_allocations (scale_to_bibit_score x) = Inr allocation_data"
  using tier_configured [OF scale_in_tiers [of x]] by (auto simp: get_allocations_def)

text \<open>
  C4. \<open>scale_to_bibit_score\<close> returns, for every finite score, one of the 19 values
  1.0, 1.5, \<dots>, 10.0. It has no failing branch: its divisors are non-zero constants,
  and \<open>round\<close> is applied to a finite float.
\<close>

theorem scale_total_in_tiers:
  "scale_to_bibit_score x \<in>
     {1, 3/2, 2, 5/2, 3, 7/2, 4, 9/2, 5, 11/2, 6, 13/2, 7, 15/2, 8, 17/2, 9, 19/2, 10} \<and>
   scale_to_bibit_score x \<in> set tiers \<and> length tiers = 19 \<and> distinct tiers"
  using scale_in_tiers [of x] by (simp add: tiers_eval)

text \<open>
  C5. A score at or below 0 gives exactly 1, a score at or above 47 gives exactly 10.
  As stated for the scores strictly between (the result is the nearest half step of
  \<open>1 + x * 9 / 47\<close>) the claim does not hold of every float: the interpolation is
  computed in float operations, and next to a midpoint between two half steps its
  rounding error decides the result. What holds there: the result is a half step
  between 1 and 10 within a quarter of the computed interpolation \<open>unrounded_b_score\<close>,
  a whole number when the computed interpolation is exactly midway; the computed
  interpolation is within \<open>3 / 2 ^ 50\<close> of the exact one; and the result is the
  nearest half step of the exact interpolation whenever that is farther than
  \<open>3 / 2 ^ 50\<close> from every midpoint, which is so for every integer score.
\<close>

theorem scale_boundaries_and_quantisation:
  "(lo \<le> 0 \<longrightarrow> scale_to_bibit_score lo = 1) \<and>
   (47 \<le> hi \<longrightarrow> scale_to_bibit_score hi = 10) \<and>
   (0 < x \<and> x < 47 \<longrightarrow>
      (\<exists>n. 2 \<le> n \<and> n \<le> 20 \<and> scale_to_bibit_score x = of_int n * (1/2)) \<and>
      \<bar>scale_to_bibit_score x - unrounded_b_score x\<bar> \<le> 1/4 \<and>
      \<bar>unrounded_b_score x - (1 + x * 9 / 47)\<bar> \<le> 3 / 2 ^ 50) \<and>
   (0 < t \<and> t < 47 \<and> \<bar>scale_to_bibit_score t - unrounded_b_score t\<bar> = 1/4 \<longrightarrow>
      scale_to_bibit_score t \<in> \<int>) \<and>
   (0 < y \<and> y < 47 \<and>
      (\<forall>m::int. 3 / 2 ^ 50 < \<bar>1 + y * 9 / 47 - (of_int m * (1/2) + 1/4)\<bar>) \<longrightarrow>
      \<bar>scale_to_bibit_score y - (1 + y * 9 / 47)\<bar> < 1/4) \<and>
   (0 < k \<and> k < 47 \<longrightarrow>
      \<bar>scale_to_bibit_score (of_int k) - (1 + of_int k * 9 / 47)\<bar> < 1/4)"
proof (intro conjI impI)
  assume "lo \<le> 0"
  then show "scale_to_bibit_score lo = 1" by (simp add: scale_to_bibit_score_def)
next
  assume "47 \<le> hi"
  then show "scale_to_bibit_score hi = 10" by (simp add: scale_to_bibit_score_def)
next
  assume x: "0 < x \<and> x < 47"
  then have "2 \<le> py_round (unrounded_b_score x / (1/2))"
    "py_round (unrounded_b_score x / (1/2)) \<le> 20"
    using py_round_doubled_bounds [of x] by simp_all
  moreover have "scale_to_bibit_score x = of_int (py_round (unrounded_b_score x / (1/2))) * (1/2)"
    using x by (intro scale_interior) auto
  ultimately show "\<exists>n. 2 \<le> n \<and> n \<le> 20 \<and> scale_to_bibit_score x = of_int n * (1/2)"
    by blast
next
  assume "0 < x \<and> x < 47"
  then show "\<bar>scale_to_bibit_score x - unrounded_b_score x\<bar> \<le> 1/4"
    by (intro scale_near_unrounded) auto
next
  assume "0 < x \<and> x < 47"
  then show "\<bar>unrounded_b_score x - (1 + x * 9 / 47)\<bar> \<le> 3 / 2 ^ 50"
    by (intro unrounded_b_score_error) auto
next
  assume "0 < t \<and> t < 47 \<and> \<bar>scale_to_bibit_score t - unrounded_b_score t\<bar> = 1/4"
  then show "scale_to_bibit_score t \<in> \<int>"
    by (intro scale_tie_whole) auto
next
  assume "0 < y \<and> y < 47 \<and>
      (\<forall>m::int. 3 / 2 ^ 50 < \<bar>1 + y * 9 / 47 - (of_int m * (1/2) + 1/4)\<bar>)"
  then show "\<bar>scale_to_bibit_score y - (1 + y * 9 / 47)\<bar> < 1/4"
    by (intro scale_nearest_exact) auto
next
  assume "0 < k \<and> k < 47"
  then show "\<bar>scale_to_bibit_score (of_int k) - (1 + of_int k * 9 / 47)\<bar> < 1/4"
    by (intro scale_integer_nearest) auto
qed

theorem scale_boundaries_and_quantisation_witness:
  "(- 3 \<le> (0::rat) \<and> scale_to_bibit_score (- 3) = 1) \<and>
   ((47::rat) \<le> 48 \<and> scale_to_bibit_score 48 = 10) \<and>
   ((0::rat) < 13 \<and> (13::rat) < 47 \<and>
      (\<exists>n. 2 \<le> n \<and> n \<le> 20 \<and> scale_to_bibit_score 13 = of_int n * (1/2)) \<and>
      \<bar>scale_to_bibit_score 13 - unrounded_b_score 13\<bar> \<le> 1/4 \<and>
      \<bar>unrounded_b_score 13 - (1 + 13 * 9 / 47)\<bar> \<le> 3 / 2 ^ 50) \<and>
   ((0::rat) < 47/36 \<and> (47/36::rat) < 47 \<and>
      \<bar>scale_to_bibit_score (47/36) - unrounded_b_score (47/36)\<bar> = 1/4 \<and>
      scale_to_bibit_score (47/36) \<in> \<int>) \<and>
   ((0::rat) < of_int 13 \<and> (of_int 13 :: rat) < 47 \<and>
      (\<forall>m::int. 3 / 2 ^ 50 < \<bar>1 + of_int 13 * 9 / 47 - (of_int m * (1/2) + 1/4 :: rat)\<bar>) \<and>
      \<bar>scale_to_bibit_score (of_int 13) - (1 + of_int 13 * 9 / 47)\<bar> < 1/4) \<and>
   ((0::int) < 13 \<and> (13::int) < 47 \<and>
      \<bar>scale_to_bibit_score (of_int 13) - (1 + of_int 13 * 9 / 47)\<bar> < 1/4)"
proof -
  have h1: "- 3 \<le> (0::rat)" and h2: "(47::rat) \<le> 48"
    and h3: "(0::rat) < 13 \<and> (13::rat) < 47" by simp_all
  have s: "scale_to_bibit_score (47/36) = 1" and u: "unrounded_b_score (47/36) = 5/4"
    by code_simp+
  have h4: "(0::rat) < 47/36 \<and> (47/36::rat) < 47 \<and>
      \<bar>scale_to_bibit_score (47/36) - unrounded_b_score (47/36)\<bar> = 1/4"
    unfolding s u by simp
  have off: "\<forall>m::int. 3 / 2 ^ 50 < \<bar>1 + of_int 13 * 9 / 47 - (of_int m * (1/2) + 1/4 :: rat)\<bar>"
    using integer_score_off_ties [of 13] by blast
  have h5: "(0::rat) < of_int 13 \<and> (of_int 13 :: rat) < 47 \<and>
      (\<forall>m::int. 3 / 2 ^ 50 < \<bar>1 + of_int 13 * 9 / 47 - (of_int m * (1/2) + 1/4 :: rat)\<bar>)"
    using off by simp
  have h6: "(0::int) < 13 \<and> (13::int) < 47" by simp
  from scale_boundaries_and_quantisation [of "- 3" 48 13 "47/36" "of_int 13" 13]
    h1 h2 h3 h4 h5 h6
  show ?thesis by blast
qed

text \<open>The counterexample to C5 as stated: a binary64 score just above \<open>47 / 36\<close>. Its
  exact interpolation is above \<open>5 / 4\<close>, so \<open>3 / 2\<close> is the nearest half step, but the
  computed interpolation is \<open>5 / 4\<close> and rounds to the even side.\<close>

theorem scale_quantisation_counterexample:
  "(0::rat) < 5879699513511483 / 4503599627370496 \<and>
   (5879699513511483 / 4503599627370496 :: rat) < 47 \<and>
   scale_to_bibit_score (5879699513511483 / 4503599627370496) = 1 \<and>
   \<bar>3/2 - (1 + (5879699513511483 / 4503599627370496) * 9 / 47 :: rat)\<bar>
     < \<bar>scale_to_bibit_score (5879699513511483 / 4503599627370496)
          - (1 + (5879699513511483 / 4503599627370496) * 9 / 47)\<bar>"
proof -
  have s: "scale_to_bibit_score (5879699513511483 / 4503599627370496) = 1"
    by code_simp
  show ?thesis unfolding s by simp
qed

text \<open>
  C6. As stated (every list with a repeated question id fails with the duplicate error
  for that id, whatever else the list holds) the claim does not hold: the scan is left
  to right and stops at the first failure, so an invalid entry before the repeat wins.
  What holds: when the entries before the repeating entry have pairwise distinct
  questions and each is a known question with one of its choices, the function fails
  with the duplicate error for the repeated id, whatever the choice of the repeating
  entry and whatever follows it.
\<close>

theorem duplicate_question_after_valid_prefix:
  assumes "distinct (map question pre)" "list_all scorable pre"
    and "question a \<in> question ` set pre"
  shows "calculate_gl_score (pre @ a # rest) =
           Inl (HTTPException 400 (DuplicateQuestion (question a)))"
proof -
  have "gl_loop pre (0, {}) = Inr (0 + sum_list (map points_of pre), {} \<union> question ` set pre)"
    using assms(1,2) by (intro gl_loop_ok) auto
  then have "gl_loop (pre @ a # rest) (0, {}) =
      gl_loop (a # rest) (0 + sum_list (map points_of pre), {} \<union> question ` set pre)"
    by (rule gl_loop_append)
  also have "\<dots> = Inl (HTTPException 400 (DuplicateQuestion (question a)))"
    using assms(3) by (simp add: Let_def)
  finally show ?thesis by (simp add: calculate_gl_score_def)
qed

theorem duplicate_question_after_valid_prefix_witness:
  "distinct (map question [\<lparr>question = 4, answer = ''C''\<rparr>, \<lparr>question = 1, answer = ''A''\<rparr>]) \<and>
   list_all scorable [\<lparr>question = 4, answer = ''C''\<rparr>, \<lparr>question = 1, answer = ''A''\<rparr>] \<and>
   question \<lparr>question = 4, answer = ''D''\<rparr>
     \<in> question ` set [\<lparr>question = 4, answer = ''C''\<rparr>, \<lparr>question = 1, answer = ''A''\<rparr>] \<and>
   calculate_gl_score
     ([\<lparr>question = 4, answer = ''C''\<rparr>, \<lparr>question = 1, answer = ''A''\<rparr>] @
       \<lparr>question = 4, answer = ''D''\<rparr> # [\<lparr>question = 99, answer = ''Z''\<rparr>])
     = Inl (HTTPException 400 (DuplicateQuestion (question \<lparr>question = 4, answer = ''D''\<rparr>)))"
proof -
  have d: "distinct (map question
      [\<lparr>question = 4, answer = ''C''\<rparr>, \<lparr>question = 1, answer = ''A''\<rparr>])"
    by simp
  have v: "list_all scorable [\<lparr>question = 4, answer = ''C''\<rparr>, \<lparr>question = 1, answer = ''A''\<rparr>]"
    by (simp add: scorable_def entry_points_def GL_SCORING_KEY_def)
  have m: "question \<lparr>question = 4, answer = ''D''\<rparr>
     \<in> question ` set [\<lparr>question = 4, answer = ''C''\<rparr>, \<lparr>question = 1, answer = ''A''\<rparr>]"
    by simp
  from d v m duplicate_question_after_valid_prefix [OF d v m, of "[\<lparr>question = 99, answer = ''Z''\<rparr>]"]
  show ?thesis by (intro conjI)
qed

text \<open>The counterexample to C6 as stated: question 1 is answered twice, but the first
  entry gives question 4 the choice D, which question 4 does not have.\<close>

theorem duplicate_question_counterexample:
  "calculate_gl_score
     [\<lparr>question = 4, answer = ''D''\<rparr>, \<lparr>question = 1, answer = ''A''\<rparr>,
      \<lparr>question = 1, answer = ''B''\<rparr>]
     = Inl (HTTPException 400 (InvalidChoice ''D'' 4 [''A'', ''B'', ''C'']))
   \<and> calculate_gl_score
     [\<lparr>question = 4, answer = ''D''\<rparr>, \<lparr>question = 1, answer = ''A''\<rparr>,
      \<lparr>question = 1, answer = ''B''\<rparr>]
     \<noteq> Inl (HTTPException 400 (DuplicateQuestion 1))"
  by (simp add: calculate_gl_score_def GL_SCORING_KEY_def)

text \<open>
  C7. Every record of the allocation table has three non-negative integer weights that
  add up to 100, and the keys of the table are the 19 tiers, in order.
\<close>

theorem allocation_table_sums:
  "map fst BIBIT_ALLOCATIONS = tiers \<and> length BIBIT_ALLOCATIONS = 19 \<and>
   list_all (\<lambda>r. money_market r + obligation r + stocks r = 100 \<and>
                  0 \<le> money_market r \<and> 0 \<le> obligation r \<and> 0 \<le> stocks r)
     (map snd BIBIT_ALLOCATIONS)"
  by (simp add: BIBIT_ALLOCATIONS_def tiers_eval)

text \<open>
  C8. When no entry fails (the questions are pairwise distinct, each is a known question
  and each choice is one of its question's choices) but the set of answered questions
  is not the whole of 1 to 13, \<open>calculate_gl_score\<close> fails with the incomplete-answer-set
  error, which is raised after the loop.
\<close>

theorem incomplete_answer_set:
  assumes "distinct (map question as)" "list_all scorable as"
    and "set (map question as) \<noteq> {1..13}"
  shows "calculate_gl_score as = Inl (HTTPException 400 IncompleteAnswerSet)"
proof -
  have "gl_loop as (0, {}) = Inr (0 + sum_list (map points_of as), {} \<union> question ` set as)"
    using assms(1,2) by (intro gl_loop_ok) auto
  moreover have "card (question ` set as) \<noteq> 13"
    using card_questions_13 [OF assms(2)] assms(3) by simp
  ultimately show ?thesis by (simp add: calculate_gl_score_def)
qed

theorem incomplete_answer_set_witness:
  "distinct (map question [\<lparr>question = 4, answer = ''C''\<rparr>, \<lparr>question = 1, answer = ''A''\<rparr>]) \<and>
   list_all scorable [\<lparr>question = 4, answer = ''C''\<rparr>, \<lparr>question = 1, answer = ''A''\<rparr>] \<and>
   set (map question [\<lparr>question = 4, answer = ''C''\<rparr>, \<lparr>question = 1, answer = ''A''\<rparr>])
     \<noteq> {1..13} \<and>
   calculate_gl_score [\<lparr>question = 4, answer = ''C''\<rparr>, \<lparr>question = 1, answer = ''A''\<rparr>]
     = Inl (HTTPException 400 IncompleteAnswerSet)"
proof -
  have d: "distinct (map question
      [\<lparr>question = 4, answer = ''C''\<rparr>, \<lparr>question = 1, answer = ''A''\<rparr>])"
    by simp
  have v: "list_all scorable [\<lparr>question = 4, answer = ''C''\<rparr>, \<lparr>question = 1, answer = ''A''\<rparr>]"
    by (simp add: scorable_def entry_points_def GL_SCORING_KEY_def)
  have n: "set (map question [\<lparr>question = 4, answer = ''C''\<rparr>, \<lparr>question = 1, answer = ''A''\<rparr>])
      \<noteq> {1..13}"
  proof
    assume eq: "set (map question [\<lparr>question = 4, answer = ''C''\<rparr>, \<lparr>question = 1, answer = ''A''\<rparr>])
      = {1..13}"
    have "(2::int) \<in> {1..13}" by simp
    then have "(2::int) \<in> set (map question
        [\<lparr>question = 4, answer = ''C''\<rparr>, \<lparr>question = 1, answer = ''A''\<rparr>])"
      unfolding eq .
    then show False by simp
  qed
  from d v n incomplete_answer_set [OF d v n] show ?thesis by (intro conjI)
qed

text \<open>
  C10. \<open>scale_to_bibit_score\<close> is monotone: a larger score never gets a smaller tier.
  Each float operation is monotone on the non-negative operands that occur, and so is
  \<open>round\<close>.
\<close>

theorem scale_monotone:
  assumes "a \<le> b"
  shows "scale_to_bibit_score a \<le> scale_to_bibit_score b"
proof -
  consider "a \<le> 0" | "47 \<le> b" | "0 < a" "b < 47" by linarith
  then show ?thesis
  proof cases
    case 1
    then have "scale_to_bibit_score a = 1" by (simp add: scale_to_bibit_score_def)
    then show ?thesis using scale_in_range [of b] by simp
  next
    case 2
    then have "scale_to_bibit_score b = 10" by (simp add: scale_to_bibit_score_def)
    then show ?thesis using scale_in_range [of a] by simp
  next
    case 3
    with assms have a: "0 < a" "a < 47" and b: "0 < b" "b < 47" by auto
    have "unrounded_b_score a / (1/2) \<le> unrounded_b_score b / (1/2)"
      using unrounded_b_score_mono [of a b] a assms by simp
    then have "py_round (unrounded_b_score a / (1/2)) \<le> py_round (unrounded_b_score b / (1/2))"
      unfolding py_round_def by (rule rhe_mono)
    then have "(of_int (py_round (unrounded_b_score a / (1/2))) :: rat)
        \<le> of_int (py_round (unrounded_b_score b / (1/2)))"
      by (simp only: of_int_le_iff)
    then show ?thesis
      unfolding scale_interior [OF a] scale_interior [OF b] by simp
  qed
qed

theorem scale_monotone_witness:
  "(13::rat) \<le> 14 \<and> scale_to_bibit_score 13 \<le> scale_to_bibit_score 14"
  using scale_monotone [of 13 14] by simp

end
